theory Spec2Isabelle
  imports Complex_Main
begin

section \<open>Text cleaning of legislative PDF pages (extrair\_texto.py)\<close>

subsection \<open>Python strings\<close>

text \<open>
  A Python \<open>str\<close> is a sequence of Unicode code points; a code point is a natural number
  and a string a list of them.  \<open>isspace\<close> is the whitespace test shared by
  \<open>str.strip\<close>, \<open>str.split\<close> and the regular-expression class \<open>\s\<close>.
\<close>

type_synonym cp = nat
type_synonym str = "cp list"

definition isspace :: "cp \<Rightarrow> bool" where
  "isspace c \<longleftrightarrow>
     (9 \<le> c \<and> c \<le> 13) \<or> (28 \<le> c \<and> c \<le> 32) \<or> c = 133 \<or> c = 160 \<or> c = 5760 \<or>
     (8192 \<le> c \<and> c \<le> 8202) \<or> c = 8232 \<or> c = 8233 \<or> c = 8239 \<or> c = 8287 \<or> c = 12288"

definition lstrip :: "str \<Rightarrow> str" where
  "lstrip s = dropWhile isspace s"

definition rstrip :: "str \<Rightarrow> str" where
  "rstrip s = rev (dropWhile isspace (rev s))"

definition strip :: "str \<Rightarrow> str" where
  "strip s = rstrip (lstrip s)"

text \<open>
  \<open>re_sub_runs P k s\<close> is \<open>re.sub(r'[P]{k,}', ' ', s)\<close> for a character class \<open>P\<close> and
  \<open>k \<ge> 1\<close>: scanning from the left, a greedy match takes the whole run of class
  characters that starts at the current position; if the run has at least \<open>k\<close>
  characters it is replaced by one space and the scan resumes behind it, otherwise the
  current character is copied and the scan moves on by one.
\<close>

function re_sub_runs :: "(cp \<Rightarrow> bool) \<Rightarrow> nat \<Rightarrow> str \<Rightarrow> str" where
  "re_sub_runs P k [] = []"
| "re_sub_runs P k (c # cs) =
     (if P c \<and> k \<le> length (takeWhile P (c # cs))
      then 32 # re_sub_runs P k (dropWhile P cs)
      else c # re_sub_runs P k cs)"
  by pat_completeness auto
termination
  by (relation "measure (\<lambda>(P, k, s). length s)")
     (auto simp: length_dropWhile_le less_Suc_eq_le)

subsection \<open>Line normalizer\<close>

text \<open>The class \<open>[_'.\<cdot>...]\<close> of dot-leader glyphs in \<open>normalize_line\<close>, by code point.\<close>

definition noise :: "cp \<Rightarrow> bool" where
  "noise c \<longleftrightarrow> c \<in> set [95, 39, 46, 183, 8226, 9679, 9702, 9642, 9643, 8901, 8729, 8230]"

definition normalize_line :: "str \<Rightarrow> str" where
  "normalize_line s = strip (re_sub_runs isspace 1 (re_sub_runs noise 3 s))"

subsection \<open>Unicode character data\<close>

text \<open>
  The classifiers call \<open>str.casefold\<close>, \<open>str.upper\<close>, \<open>str.isalpha\<close>, \<open>str.isupper\<close>
  and the class \<open>\d\<close>.  Their tables belong to the Unicode database of the Python
  runtime, not to this module, so the model takes them as a parameter \<open>U\<close>.  Upper-casing
  and case folding map one code point to a string (sharp s becomes \<open>SS\<close>) and are applied
  code point by code point.
\<close>

record unicode_data =
  isdecimal :: "cp \<Rightarrow> bool"
  isalpha :: "cp \<Rightarrow> bool"
  isupper :: "cp \<Rightarrow> bool"
  upper_cp :: "cp \<Rightarrow> str"
  casefold_cp :: "cp \<Rightarrow> str"

definition upper :: "unicode_data \<Rightarrow> str \<Rightarrow> str" where
  "upper U s = concat (map (upper_cp U) s)"

definition casefold :: "unicode_data \<Rightarrow> str \<Rightarrow> str" where
  "casefold U s = concat (map (casefold_cp U) s)"

text \<open>
  \<open>latin1\<close> holds the rows of the database for the code points below 256 (Latin-1);
  every other code point is treated as an uncased symbol.  It serves to run the
  functions on concrete lines whose letters and digits are Latin-1.
\<close>

definition latin1_lower :: "cp \<Rightarrow> bool" where
  "latin1_lower c \<longleftrightarrow> (97 \<le> c \<and> c \<le> 122) \<or> (223 \<le> c \<and> c \<le> 246) \<or> (248 \<le> c \<and> c \<le> 255)"

definition latin1_upper :: "cp \<Rightarrow> bool" where
  "latin1_upper c \<longleftrightarrow> (65 \<le> c \<and> c \<le> 90) \<or> (192 \<le> c \<and> c \<le> 214) \<or> (216 \<le> c \<and> c \<le> 222)"

definition latin1 :: unicode_data where
  "latin1 = \<lparr>
     isdecimal = (\<lambda>c. 48 \<le> c \<and> c \<le> 57),
     isalpha = (\<lambda>c. latin1_lower c \<or> latin1_upper c \<or> c = 170 \<or> c = 181 \<or> c = 186),
     isupper = latin1_upper,
     upper_cp = (\<lambda>c. if c = 223 then [83, 83] else if c = 181 then [924]
                     else if c = 255 then [376]
                     else if latin1_lower c then [c - 32] else [c]),
     casefold_cp = (\<lambda>c. if c = 223 then [115, 115] else if c = 181 then [956]
                     else if latin1_upper c then [c + 32] else [c]) \<rparr>"

subsection \<open>Regular expressions\<close>

text \<open>
  The patterns of the module use character classes, concatenation, alternation and
  repetition only (no back-references, no look-around), so whether \<open>re.fullmatch\<close>
  succeeds is membership in the language of the pattern.  \<open>matches\<close> decides it by
  consuming the subject one code point at a time: \<open>after c r\<close> is what remains to be
  matched of \<open>r\<close> once \<open>c\<close> has been read, and \<open>empty_ok r\<close> says that \<open>r\<close> accepts the
  empty string.
\<close>

datatype re = Fail | Eps | Cls "cp \<Rightarrow> bool" | Alt re re | Cat re re | Star re

fun empty_ok :: "re \<Rightarrow> bool" where
  "empty_ok Fail = False"
| "empty_ok Eps = True"
| "empty_ok (Cls P) = False"
| "empty_ok (Alt r s) = (empty_ok r \<or> empty_ok s)"
| "empty_ok (Cat r s) = (empty_ok r \<and> empty_ok s)"
| "empty_ok (Star r) = True"

text \<open>\<open>alt\<close> and \<open>cat\<close> build an alternation and a concatenation and drop dead branches.\<close>

fun alt :: "re \<Rightarrow> re \<Rightarrow> re" where
  "alt Fail s = s"
| "alt r Fail = r"
| "alt r s = Alt r s"

fun cat :: "re \<Rightarrow> re \<Rightarrow> re" where
  "cat Fail s = Fail"
| "cat Eps s = s"
| "cat r s = Cat r s"

fun after :: "cp \<Rightarrow> re \<Rightarrow> re" where
  "after c Fail = Fail"
| "after c Eps = Fail"
| "after c (Cls P) = (if P c then Eps else Fail)"
| "after c (Alt r s) = alt (after c r) (after c s)"
| "after c (Cat r s) =
     (if empty_ok r then alt (cat (after c r) s) (after c s) else cat (after c r) s)"
| "after c (Star r) = cat (after c r) (Star r)"

fun matches :: "re \<Rightarrow> str \<Rightarrow> bool" where
  "matches r [] = empty_ok r"
| "matches r (c # cs) = matches (after c r) cs"

text \<open>
  The language of a pattern, for reasoning about all subjects at once: \<open>conc A B\<close> holds
  the words \<open>u @ v\<close> with \<open>u\<close> in \<open>A\<close> and \<open>v\<close> in \<open>B\<close>, and \<open>star A\<close> the concatenations of
  finitely many non-empty words of \<open>A\<close>.
\<close>

definition conc :: "str set \<Rightarrow> str set \<Rightarrow> str set" where
  "conc A B = {u @ v | u v. u \<in> A \<and> v \<in> B}"

inductive_set star :: "str set \<Rightarrow> str set" for A :: "str set" where
  star_empty: "[] \<in> star A"
| star_step: "c # u \<in> A \<Longrightarrow> v \<in> star A \<Longrightarrow> (c # u) @ v \<in> star A"

fun lang :: "re \<Rightarrow> str set" where
  "lang Fail = {}"
| "lang Eps = {[]}"
| "lang (Cls P) = {[c] | c. P c}"
| "lang (Alt r s) = lang r \<union> lang s"
| "lang (Cat r s) = conc (lang r) (lang s)"
| "lang (Star r) = star (lang r)"

text \<open>The pattern syntax: \<open>c\<close>, \<open>r?\<close>, \<open>r+\<close>, \<open>r{n}\<close>, \<open>r{n,m}\<close>, \<open>r{n,}\<close>, \<open>.\<close> and \<open>abc\<close>.\<close>

definition lit :: "cp \<Rightarrow> re" where
  "lit c = Cls (\<lambda>x. x = c)"

definition opt :: "re \<Rightarrow> re" where
  "opt r = Alt r Eps"

definition plus1 :: "re \<Rightarrow> re" where
  "plus1 r = Cat r (Star r)"

fun rep_exact :: "nat \<Rightarrow> re \<Rightarrow> re" where
  "rep_exact 0 r = Eps"
| "rep_exact (Suc n) r = Cat r (rep_exact n r)"

fun rep_upto :: "nat \<Rightarrow> re \<Rightarrow> re" where
  "rep_upto 0 r = Eps"
| "rep_upto (Suc n) r = opt (Cat r (rep_upto n r))"

definition rep_range :: "nat \<Rightarrow> nat \<Rightarrow> re \<Rightarrow> re" where
  "rep_range n m r = Cat (rep_exact n r) (rep_upto (m - n) r)"

definition rep_min :: "nat \<Rightarrow> re \<Rightarrow> re" where
  "rep_min n r = Cat (rep_exact n r) (Star r)"

definition dot :: re where
  "dot = Cls (\<lambda>x. x \<noteq> 10)"

fun cats :: "re list \<Rightarrow> re" where
  "cats [] = Eps"
| "cats [r] = r"
| "cats (r # rs) = Cat r (cats rs)"

text \<open>
  Under \<open>(?i)\<close> a cased literal matches its case variants and an uncased one only
  itself.  \<open>ci_variants\<close> lists, for the ASCII letters and a-acute, the code points the
  engine accepts: both cases, the dotted capital and dotless small \<open>i\<close> for \<open>i\<close>, the
  long \<open>s\<close> for \<open>s\<close>, the Kelvin sign for \<open>k\<close>.
\<close>

definition ci_variants :: "cp \<Rightarrow> cp list" where
  "ci_variants c =
     (if c = 105 \<or> c = 73 then [105, 73, 304, 305]
      else if c = 115 \<or> c = 83 then [115, 83, 383]
      else if c = 107 \<or> c = 75 then [107, 75, 8490]
      else if 97 \<le> c \<and> c \<le> 122 then [c, c - 32]
      else if 65 \<le> c \<and> c \<le> 90 then [c, c + 32]
      else if c = 225 \<or> c = 193 then [225, 193]
      else [c])"

definition ilit :: "cp \<Rightarrow> re" where
  "ilit c = Cls (\<lambda>x. x \<in> set (ci_variants c))"

definition iset :: "cp list \<Rightarrow> re" where
  "iset cs = Cls (\<lambda>x. \<exists>c \<in> set cs. x \<in> set (ci_variants c))"

definition ws :: re where
  "ws = Cls isspace"

definition digit :: "unicode_data \<Rightarrow> re" where
  "digit U = Cls (isdecimal U)"

text \<open>
  Anchors.  \<open>re.fullmatch\<close> is \<open>matches\<close>.  A pattern that ends in \<open>$\<close> may stop at the
  end of the subject or just before a line feed that ends it (\<open>eol\<close>).  \<open>re.search\<close>
  lets any text (\<open>anything\<close>) precede and follow the match, except where \<open>^\<close> or \<open>$\<close>
  pins that side.
\<close>

definition eol :: re where
  "eol = opt (lit 10)"

definition anything :: re where
  "anything = Star (Cls (\<lambda>x. True))"

subsection \<open>More string operations\<close>

text \<open>\<open>startswith p s\<close> and \<open>str_in b l\<close> are \<open>s.startswith(p)\<close> and \<open>b in l\<close>.\<close>

fun startswith :: "str \<Rightarrow> str \<Rightarrow> bool" where
  "startswith [] s = True"
| "startswith (p # ps) [] = False"
| "startswith (p # ps) (c # cs) = (p = c \<and> startswith ps cs)"

fun str_in :: "str \<Rightarrow> str \<Rightarrow> bool" where
  "str_in b [] = (b = [])"
| "str_in b (c # cs) = (startswith b (c # cs) \<or> str_in b cs)"

definition endswith :: "str \<Rightarrow> str \<Rightarrow> bool" where
  "endswith s p = startswith (rev p) (rev s)"

text \<open>\<open>s.split()\<close>: the maximal runs of non-whitespace, \<open>cur\<close> being the word read so far.\<close>

fun split_from :: "str \<Rightarrow> str \<Rightarrow> str list" where
  "split_from cur [] = (if cur = [] then [] else [cur])"
| "split_from cur (c # cs) =
     (if isspace c then (if cur = [] then split_from [] cs else cur # split_from [] cs)
      else split_from (cur @ [c]) cs)"

definition split :: "str \<Rightarrow> str list" where
  "split s = split_from [] s"





subsection \<open>Page-number classifier\<close>

text \<open>
  The three patterns of \<open>is_page_number\<close>:
  \<^verbatim>\<open>\d{1,4}\<close>,
  \<^verbatim>\<open>(?i)p[\<close>a-acute\<^verbatim>\<open>a]gina\s+\d{1,4}(\s+de\s+\d{1,4})?\<close> and
  \<^verbatim>\<open>\d{1,4}\s*/\s*\d{1,4}\<close>.
\<close>

definition re_digits :: "unicode_data \<Rightarrow> re" where
  "re_digits U = rep_range 1 4 (digit U)"

definition re_pagina :: "unicode_data \<Rightarrow> re" where
  "re_pagina U = cats [ilit 112, iset [225, 97], ilit 103, ilit 105, ilit 110, ilit 97,
     plus1 ws, rep_range 1 4 (digit U),
     opt (cats [plus1 ws, ilit 100, ilit 101, plus1 ws, rep_range 1 4 (digit U)])]"

definition re_x_of_y :: "unicode_data \<Rightarrow> re" where
  "re_x_of_y U = cats [rep_range 1 4 (digit U), Star ws, lit 47, Star ws, rep_range 1 4 (digit U)]"

definition is_page_number :: "unicode_data \<Rightarrow> str \<Rightarrow> bool" where
  "is_page_number U line =
     (let t = strip line in
      if matches (re_digits U) t then True
      else if matches (re_pagina U) t then True
      else if matches (re_x_of_y U) t then True
      else False)"

subsection \<open>Boilerplate filter\<close>

definition BANNED_SUBSTRS :: "str list" where
  "BANNED_SUBSTRS =
    [[99, 226, 109, 97, 114, 97, 32, 100, 111, 115, 32, 100, 101, 112, 117, 116, 97, 100, 111, 115],
     [103, 97, 98, 105, 110, 101, 116, 101, 32, 100, 111, 32, 100, 101, 112, 117, 116, 97, 100, 111],
     [103, 97, 98, 105, 110, 101, 116, 101, 32, 100, 111, 32, 100, 101, 112, 117, 116, 97, 100, 111,
      32, 102, 101, 100, 101, 114, 97, 108],
     [97, 115, 115, 105, 110, 97, 100, 111, 32, 101, 108, 101, 116, 114, 111, 110, 105, 99, 97, 109,
      101, 110, 116, 101],
     [112, 97, 114, 97, 32, 118, 101, 114, 105, 102, 105, 99, 97, 114, 32, 97, 32, 97, 115, 115,
      105, 110, 97, 116, 117, 114, 97],
     [64, 99, 97, 109, 97, 114, 97, 46, 108, 101, 103, 46, 98, 114],
     [112, 114, 97, 231, 97, 32, 100, 111, 115, 32, 116, 114, 234, 115, 32, 112, 111, 100, 101,
      114, 101, 115],
     [99, 101, 112, 32, 55, 48, 49, 54, 48],
     [109, 101, 115, 97],
     [100, 101, 112, 117, 116, 97, 100, 111, 32, 102, 101, 100, 101, 114, 97, 108],
     [112, 114, 111, 106, 101, 116, 111, 32, 100, 101, 32, 108, 101, 105, 32, 110],
     [112, 114, 111, 106, 101, 116, 111, 32, 100, 101, 32, 108, 101, 105, 32, 110, 186],
     [103, 97, 98, 105, 110, 101, 116, 101]]"

text \<open>
  The protocol stamp \<^verbatim>\<open>(\*|^)\s*cd\d{6,}\s*(\*|$)\<close>, looked for with \<open>re.search\<close>: the
  match starts behind an asterisk anywhere or at the start of the line, and ends with an
  asterisk or at the end of the line.
\<close>

definition re_protocol :: "unicode_data \<Rightarrow> re" where
  "re_protocol U = cats [Alt (Cat anything (lit 42)) Eps,
     Star ws, lit 99, lit 100, rep_min 6 (digit U), Star ws,
     Alt (Cat (lit 42) anything) eol]"

text \<open>
  The standalone bill identifier, as the source has it:
  \<^verbatim>\<open>(?i)pl\s*n?`\.IBLE?s*\d{1,6}[/-]\d{2,4}\<close>.  The backquote, the dot, the slash and
  the hyphen are uncased and match themselves only.
\<close>

definition re_bill :: "unicode_data \<Rightarrow> re" where
  "re_bill U = cats [ilit 112, ilit 108, Star ws, opt (ilit 110), lit 96, lit 46,
     ilit 73, ilit 66, ilit 76, opt (ilit 69), Star (ilit 115),
     rep_range 1 6 (digit U), Cls (\<lambda>x. x = 47 \<or> x = 45), rep_range 2 4 (digit U)]"

definition should_remove_global :: "unicode_data \<Rightarrow> str \<Rightarrow> bool" where
  "should_remove_global U line =
     (if line = [] then False
      else let l = casefold U line in
        if list_ex (\<lambda>b. str_in b l) BANNED_SUBSTRS then True
        else if matches (re_protocol U) l then True
        else if matches (re_bill U) (strip line) then True
        else False)"

subsection \<open>Annex titles\<close>

definition STRICT_UPPERCASE_ANNEX :: bool where
  "STRICT_UPPERCASE_ANNEX = True"

text \<open>
  \<^verbatim>\<open>^ANEXO(\s+[IVXLCDM0-9]+)?(\s*[-\<close>en-dash em-dash\<^verbatim>\<open>:].*)?$\<close>, tried with
  \<open>re.match\<close>.  The class of numerals lists ASCII characters, and the separators are the
  hyphen, the en dash, the em dash and the colon.
\<close>

definition numeral_char :: "cp \<Rightarrow> bool" where
  "numeral_char c \<longleftrightarrow> c \<in> set [73, 86, 88, 76, 67, 68, 77] \<or> (48 \<le> c \<and> c \<le> 57)"

definition separator_char :: "cp \<Rightarrow> bool" where
  "separator_char c \<longleftrightarrow> c = 45 \<or> c = 8211 \<or> c = 8212 \<or> c = 58"

definition re_annex :: re where
  "re_annex = cats [lit 65, lit 78, lit 69, lit 88, lit 79,
     opt (Cat (plus1 ws) (plus1 (Cls numeral_char))),
     opt (cats [Star ws, Cls separator_char, Star dot]),
     eol]"

definition looks_like_annex_title :: "unicode_data \<Rightarrow> str \<Rightarrow> bool" where
  "looks_like_annex_title U line =
     (let s = strip line in
      if \<not> matches re_annex s then False
      else if endswith s [46] \<or> length (split s) > 10 then False
      else
        let letters = filter (isalpha U) s in
        if letters \<noteq> [] \<and>
           (of_nat (length (filter (isupper U) letters)) / of_nat (length letters) :: rat) < 9 / 10
        then False
        else if STRICT_UPPERCASE_ANNEX \<and> s \<noteq> upper U s then False
        else True)"

subsection \<open>Pages, blocks and lines\<close>

text \<open>
  A page of the PDF library is read through its height (\<open>p.rect.height\<close>) and its text
  blocks (\<open>page.get_text("blocks")\<close>): a block is a bounding box \<open>(x0, y0, x1, y1)\<close> and
  a text that may span several lines.  Coordinates are floating-point numbers in the
  source; the model computes with rationals, so \<open>h * 0.15\<close> is the exact product.
  The detection loop and the filtering loop compute the cutoffs of a page by the same
  expressions, so a line is in a zone for the one exactly when it is for the other.
  The two comparisons of a count with a fraction, \<open>c >= 0.40 * n\<close> and
  \<open>upper / letters < 0.90\<close>, have integer operands, and for every page or letter count
  below \<open>2 ^ 50\<close> rounding does not change their outcome.
  A line is the bounding box of its block and a normalized text.
\<close>

type_synonym bbox = "rat \<times> rat \<times> rat \<times> rat"
type_synonym pline = "bbox \<times> str"

definition bbox_y0 :: "bbox \<Rightarrow> rat" where
  "bbox_y0 b = fst (snd b)"



definition TOP_FRAC :: rat where
  "TOP_FRAC = 15 / 100"

definition BOTTOM_FRAC :: rat where
  "BOTTOM_FRAC = 15 / 100"


definition TOP_FRAC_ANNEX :: rat where
  "TOP_FRAC_ANNEX = 30 / 100"



subsection \<open>Header and footer detection\<close>









subsection \<open>Annex detection\<close>

definition has_annex_title :: "unicode_data \<Rightarrow> rat \<Rightarrow> pline list \<Rightarrow> bool" where
  "has_annex_title U h lines =
     list_ex (\<lambda>(bbox, line). bbox_y0 bbox \<le> h * TOP_FRAC_ANNEX \<and> looks_like_annex_title U line) lines"



subsection \<open>The cleaning pipeline\<close>

text \<open>The four exclusion rules applied to a line of a page with cutoffs \<open>top_y\<close> and \<open>bottom_y\<close>.\<close>

definition excluded ::
  "unicode_data \<Rightarrow> str set \<Rightarrow> str set \<Rightarrow> rat \<Rightarrow> rat \<Rightarrow> pline \<Rightarrow> bool" where
  "excluded U top_rep bot_rep top_y bottom_y = (\<lambda>(bbox, line).
     let y0 = bbox_y0 bbox in
       should_remove_global U line
       \<or> (line \<in> top_rep \<and> y0 \<le> top_y)
       \<or> (line \<in> bot_rep \<and> y0 \<ge> bottom_y)
       \<or> (is_page_number U line \<and> (y0 \<le> top_y \<or> y0 \<ge> bottom_y)))"

definition keep_lines ::
  "unicode_data \<Rightarrow> str set \<Rightarrow> str set \<Rightarrow> rat \<Rightarrow> pline list \<Rightarrow> str list" where
  "keep_lines U top_rep bot_rep h lines =
     map snd (filter (\<lambda>ln. \<not> excluded U top_rep bot_rep (h * TOP_FRAC) (h * (1 - BOTTOM_FRAC)) ln)
       lines)"




subsection \<open>The shapes of a page number, in words\<close>

text \<open>
  The three shapes of a page number as a reader states them, without patterns:
  one to four decimal digits; a spelling of the word for "page", whitespace and one to
  four digits, optionally followed by whitespace, \<open>de\<close>, whitespace and one to four
  digits; two groups of one to four digits around a slash with optional whitespace.
  \<open>same_word w v\<close> says that \<open>v\<close> spells \<open>w\<close> up to letter case.
\<close>

definition digits14 :: "unicode_data \<Rightarrow> str \<Rightarrow> bool" where
  "digits14 U ds \<longleftrightarrow> 1 \<le> length ds \<and> length ds \<le> 4 \<and> list_all (isdecimal U) ds"

definition blanks :: "str \<Rightarrow> bool" where
  "blanks sp = list_all isspace sp"

definition same_word :: "str \<Rightarrow> str \<Rightarrow> bool" where
  "same_word w v = list_all2 (\<lambda>c x. x \<in> set (ci_variants c)) w v"

definition PAGINA :: str where
  "PAGINA = [112, 225, 103, 105, 110, 97]"

definition PAGINA_UNACCENTED :: str where
  "PAGINA_UNACCENTED = [112, 97, 103, 105, 110, 97]"

definition of_total :: "unicode_data \<Rightarrow> str \<Rightarrow> bool" where
  "of_total U rest \<longleftrightarrow>
     (\<exists>sp1 de sp2 ds. rest = sp1 @ de @ sp2 @ ds \<and> sp1 \<noteq> [] \<and> blanks sp1 \<and>
        same_word [100, 101] de \<and> sp2 \<noteq> [] \<and> blanks sp2 \<and> digits14 U ds)"

definition shape_pagina :: "unicode_data \<Rightarrow> str list \<Rightarrow> str \<Rightarrow> bool" where
  "shape_pagina U spellings t \<longleftrightarrow>
     (\<exists>w sp ds rest. t = w @ sp @ ds @ rest \<and> list_ex (\<lambda>p. same_word p w) spellings \<and>
        sp \<noteq> [] \<and> blanks sp \<and> digits14 U ds \<and> (rest = [] \<or> of_total U rest))"

definition shape_slash :: "unicode_data \<Rightarrow> str \<Rightarrow> bool" where
  "shape_slash U t \<longleftrightarrow>
     (\<exists>a sp1 sp2 b. t = a @ sp1 @ [47] @ sp2 @ b \<and> digits14 U a \<and> blanks sp1 \<and>
        blanks sp2 \<and> digits14 U b)"

definition page_number_shape :: "unicode_data \<Rightarrow> str list \<Rightarrow> str \<Rightarrow> bool" where
  "page_number_shape U spellings t \<longleftrightarrow>
     digits14 U t \<or> shape_pagina U spellings t \<or> shape_slash U t"

subsection \<open>The pipeline's decisions, in words\<close>







text \<open>The indices of the pages that carry an annex title in their upper part.\<close>

definition title_pages :: "unicode_data \<Rightarrow> pline list list \<Rightarrow> rat list \<Rightarrow> nat list" where
  "title_pages U pages_lines heights =
     filter (\<lambda>j. has_annex_title U (heights ! j) (pages_lines ! j)) [0..<length pages_lines]"



subsection \<open>Sample documents\<close>








text \<open>
  The annex title "ANEXO I - DISPOSICOES FINAIS" (with cedilla and tilde, code points 199
  and 213), and the text \<open>art n\<close> of page \<open>n\<close>: "Art. 0", "Art. 1", ...
\<close>

definition ANEXO_I :: str where
  "ANEXO_I = [65, 78, 69, 88, 79, 32, 73, 32, 45, 32, 68, 73, 83, 80, 79, 83, 73, 199, 213, 69,
     83, 32, 70, 73, 78, 65, 73, 83]"







text \<open>
  Two shapes of text used to describe normalized lines: \<open>long_run s\<close> says that \<open>s\<close> has
  three or more consecutive dot-leader glyphs somewhere, and \<open>tidy s\<close> that every
  whitespace character of \<open>s\<close> is a single blank with no whitespace right after it.
\<close>

fun long_run :: "str \<Rightarrow> bool" where
  "long_run [] = False"
| "long_run (c # cs) = (3 \<le> length (takeWhile noise (c # cs)) \<or> long_run cs)"

fun tidy :: "str \<Rightarrow> bool" where
  "tidy [] = True"
| "tidy (c # cs) = ((isspace c \<longrightarrow> c = 32 \<and> (cs = [] \<or> \<not> isspace (hd cs))) \<and> tidy cs)"

section \<open>Verified properties\<close>

subsection \<open>Normalization\<close>

lemma isspace_32: "isspace 32" by (simp add: isspace_def)
lemma noise_not_space: "noise c \<Longrightarrow> \<not> isspace c"
  by (auto simp: noise_def isspace_def)
lemma not_noise_32: "\<not> noise 32" by (simp add: noise_def)


lemma takeWhile_noise_sub:
  "takeWhile noise (re_sub_runs noise 3 s) =
     (if 3 \<le> length (takeWhile noise s) then [] else takeWhile noise s)"
  by (induction s) (auto simp: not_noise_32)

lemma no_long_run_sub: "\<not> long_run (re_sub_runs noise 3 s)"
  by (induction "noise" "3::nat" s rule: re_sub_runs.induct)
     (auto simp: not_noise_32 takeWhile_noise_sub)

lemma sub_noise_id: "\<not> long_run t \<Longrightarrow> re_sub_runs noise 3 t = t"
  by (induction t) auto

lemma long_run_append2: "long_run ys \<Longrightarrow> long_run (xs @ ys)"
  by (induction xs) auto

lemma length_takeWhile_append:
  "length (takeWhile P xs) \<le> length (takeWhile P (xs @ ys))"
  by (induction xs) auto

lemma long_run_append1: "long_run xs \<Longrightarrow> long_run (xs @ ys)"
proof (induction xs)
  case Nil
  then show ?case by simp
next
  case (Cons c cs)
  have "length (takeWhile noise (c # cs)) \<le> length (takeWhile noise ((c # cs) @ ys))"
    by (rule length_takeWhile_append)
  with Cons show ?case by auto
qed


lemma sub_space_Nil: "re_sub_runs isspace (Suc 0) s = [] \<longleftrightarrow> s = []"
  by (cases s) auto

lemma hd_sub_space:
  "s \<noteq> [] \<Longrightarrow> \<not> isspace (hd s) \<Longrightarrow> hd (re_sub_runs isspace (Suc 0) s) = hd s"
  by (cases s) auto

lemma hd_dropWhile_space: "dropWhile isspace cs \<noteq> [] \<Longrightarrow> \<not> isspace (hd (dropWhile isspace cs))"
  by (metis hd_dropWhile)

lemma tidy_sub_space: "tidy (re_sub_runs isspace (Suc 0) s)"
proof (induction "isspace" "Suc 0" s rule: re_sub_runs.induct)
  case 1
  then show ?case by simp
next
  case (2 c cs)
  show ?case
  proof (cases "isspace c")
    case True
    let ?r = "dropWhile isspace cs"
    have "re_sub_runs isspace (Suc 0) ?r = [] \<or> \<not> isspace (hd (re_sub_runs isspace (Suc 0) ?r))"
    proof (cases "?r = []")
      case True
      then show ?thesis unfolding True by simp
    next
      case False
      then have "\<not> isspace (hd ?r)" by (rule hd_dropWhile_space)
      with False show ?thesis using hd_sub_space [of ?r] by metis
    qed
    with True 2 show ?thesis by auto
  next
    case False
    with 2 show ?thesis by auto
  qed
qed

lemma sub_space_id: "tidy t \<Longrightarrow> re_sub_runs isspace (Suc 0) t = t"
proof (induction t)
  case Nil
  then show ?case by simp
next
  case (Cons c cs)
  show ?case
  proof (cases "isspace c")
    case True
    with Cons.prems have "dropWhile isspace cs = cs" by (cases cs) auto
    with True Cons show ?thesis by auto
  next
    case False
    with Cons show ?thesis by auto
  qed
qed

lemma takeWhile_noise_sub_space:
  "takeWhile noise (re_sub_runs isspace (Suc 0) u) = takeWhile noise u"
  by (induction u) (auto simp: not_noise_32 dest: noise_not_space)

lemma long_run_sub_space: "long_run (re_sub_runs isspace (Suc 0) u) \<Longrightarrow> long_run u"
proof (induction "isspace" "Suc 0" u rule: re_sub_runs.induct)
  case 1
  then show ?case by simp
next
  case (2 c cs)
  show ?case
  proof (cases "isspace c")
    case True
    with 2 have "long_run (dropWhile isspace cs)" by (auto simp: not_noise_32)
    then have "long_run (takeWhile isspace cs @ dropWhile isspace cs)"
      by (rule long_run_append2)
    then show ?thesis by simp
  next
    case False
    with 2 show ?thesis by (auto simp: takeWhile_noise_sub_space)
  qed
qed

lemma tidy_append: "tidy (xs @ ys) \<Longrightarrow> tidy xs \<and> tidy ys"
  by (induction xs) (auto simp: hd_append split: if_splits)

lemma strip_sublist: "\<exists>pre post. x = pre @ strip x @ post"
proof -
  let ?y = "dropWhile isspace x"
  have 1: "x = takeWhile isspace x @ ?y" by simp
  have "rev ?y = takeWhile isspace (rev ?y) @ dropWhile isspace (rev ?y)" by simp
  then have "?y = rev (dropWhile isspace (rev ?y)) @ rev (takeWhile isspace (rev ?y))"
    by (metis rev_append rev_rev_ident)
  then have 2: "?y = strip x @ rev (takeWhile isspace (rev ?y))"
    by (simp add: strip_def rstrip_def lstrip_def)
  from 1 2 show ?thesis by metis
qed

lemma dropWhile_hd: "xs \<noteq> [] \<Longrightarrow> \<not> P (hd xs) \<Longrightarrow> dropWhile P xs = xs"
  by (cases xs) auto

lemma strip_id:
  assumes "t = [] \<or> \<not> isspace (hd t) \<and> \<not> isspace (last t)"
  shows "strip t = t"
proof (cases "t = []")
  case True
  then show ?thesis by (simp add: strip_def lstrip_def rstrip_def)
next
  case False
  with assms have h: "\<not> isspace (hd t)" and l: "\<not> isspace (last t)" by auto
  from False h have 1: "lstrip t = t" by (simp add: lstrip_def dropWhile_hd)
  from False l have "dropWhile isspace (rev t) = rev t"
    by (intro dropWhile_hd) (auto simp: hd_rev)
  then have "rstrip t = t" by (simp add: rstrip_def)
  with 1 show ?thesis by (simp add: strip_def)
qed

lemma strip_ends: "strip x = [] \<or> \<not> isspace (hd (strip x)) \<and> \<not> isspace (last (strip x))"
proof (cases "strip x = []")
  case True
  then show ?thesis by simp
next
  case False
  let ?y = "dropWhile isspace x"
  let ?z = "dropWhile isspace (rev ?y)"
  from False have z: "?z \<noteq> []" by (simp add: strip_def lstrip_def rstrip_def)
  have y: "?y \<noteq> []"
  proof
    assume a: "?y = []"
    have "?z = []" unfolding a by simp
    with z show False ..
  qed
  have l: "\<not> isspace (last (strip x))"
    using z hd_dropWhile [of isspace "rev ?y"] by (simp add: strip_def lstrip_def rstrip_def last_rev)
  have hy: "\<not> isspace (hd ?y)" using y hd_dropWhile [of isspace x] by simp
  have "rev ?y = takeWhile isspace (rev ?y) @ ?z" by simp
  then have "?y = rev ?z @ rev (takeWhile isspace (rev ?y))" by (metis rev_append rev_rev_ident)
  then have "hd ?y = hd (rev ?z)" using z by (metis hd_append2 rev_is_Nil_conv)
  with hy have "\<not> isspace (hd (strip x))" by (simp add: strip_def lstrip_def rstrip_def)
  with l show ?thesis by simp
qed

lemma strip_strip: "strip (strip x) = strip x"
  using strip_ends [of x] by (rule strip_id)

text \<open>
  Claim C4.  Line normalization is idempotent: normalizing an already normalized line
  changes nothing.  It is also total: \<open>normalize_line\<close> has no failing branch (the
  source only calls \<open>re.sub\<close> and \<open>str.strip\<close> on a string), so it returns a string
  for every input string.
\<close>

theorem normalize_line_idempotent: "normalize_line (normalize_line s) = normalize_line s"
proof -
  let ?w = "re_sub_runs isspace 1 (re_sub_runs noise 3 s)"
  let ?t = "normalize_line s"
  obtain pre post where w: "?w = pre @ ?t @ post"
    using strip_sublist [of ?w] by (auto simp: normalize_line_def)
  have "\<not> long_run ?w" unfolding One_nat_def using long_run_sub_space no_long_run_sub by blast
  with w have nl: "\<not> long_run ?t" using long_run_append1 long_run_append2 by metis
  have "tidy ?w" unfolding One_nat_def by (rule tidy_sub_space)
  with w have td: "tidy ?t" using tidy_append by metis
  have "re_sub_runs noise 3 ?t = ?t" using nl by (rule sub_noise_id)
  moreover have "re_sub_runs isspace (Suc 0) ?t = ?t" using td by (rule sub_space_id)
  moreover have "strip ?t = ?t" by (simp add: normalize_line_def strip_strip)
  ultimately show ?thesis by (simp add: normalize_line_def)
qed

subsection \<open>Patterns and their languages\<close>

lemma conc_iff: "w \<in> conc A B \<longleftrightarrow> (\<exists>u v. w = u @ v \<and> u \<in> A \<and> v \<in> B)"
  by (auto simp: conc_def)

lemma empty_ok_lang: "empty_ok r \<longleftrightarrow> [] \<in> lang r"
  by (induction r) (auto simp: conc_iff intro: star.star_empty)

lemma lang_alt: "lang (alt r s) = lang r \<union> lang s"
  by (induction r s rule: alt.induct) auto

lemma lang_cat: "lang (cat r s) = conc (lang r) (lang s)"
  by (induction r s rule: cat.induct) (auto simp: conc_def)

lemma cons_conc:
  "c # w \<in> conc A B \<longleftrightarrow>
     (\<exists>u v. w = u @ v \<and> c # u \<in> A \<and> v \<in> B) \<or> ([] \<in> A \<and> c # w \<in> B)"
proof
  assume "c # w \<in> conc A B"
  then obtain u v where uv: "c # w = u @ v" "u \<in> A" "v \<in> B" by (auto simp: conc_iff)
  show "(\<exists>u v. w = u @ v \<and> c # u \<in> A \<and> v \<in> B) \<or> ([] \<in> A \<and> c # w \<in> B)"
  proof (cases u)
    case Nil
    with uv show ?thesis by simp
  next
    case (Cons d u')
    with uv show ?thesis by auto
  qed
next
  assume "(\<exists>u v. w = u @ v \<and> c # u \<in> A \<and> v \<in> B) \<or> ([] \<in> A \<and> c # w \<in> B)"
  then show "c # w \<in> conc A B"
  proof
    assume "\<exists>u v. w = u @ v \<and> c # u \<in> A \<and> v \<in> B"
    then obtain u v where "w = u @ v" "c # u \<in> A" "v \<in> B" by blast
    then have "c # w = (c # u) @ v" by simp
    with \<open>c # u \<in> A\<close> \<open>v \<in> B\<close> show ?thesis unfolding conc_iff by blast
  next
    assume "[] \<in> A \<and> c # w \<in> B"
    then have "c # w = [] @ (c # w) \<and> [] \<in> A \<and> c # w \<in> B" by simp
    then show ?thesis unfolding conc_iff by blast
  qed
qed

lemma cons_star:
  "c # w \<in> star A \<longleftrightarrow> (\<exists>u v. w = u @ v \<and> c # u \<in> A \<and> v \<in> star A)"
proof
  assume "c # w \<in> star A"
  then show "\<exists>u v. w = u @ v \<and> c # u \<in> A \<and> v \<in> star A"
    by (cases rule: star.cases) auto
next
  assume "\<exists>u v. w = u @ v \<and> c # u \<in> A \<and> v \<in> star A"
  then obtain u v where "w = u @ v" "c # u \<in> A" "v \<in> star A" by blast
  then show "c # w \<in> star A" using star.star_step [of c u A v] by simp
qed

lemma lang_after: "w \<in> lang (after c r) \<longleftrightarrow> c # w \<in> lang r"
proof (induction r arbitrary: w)
  case (Cat r s)
  have "w \<in> lang (after c (Cat r s)) \<longleftrightarrow>
          w \<in> conc (lang (after c r)) (lang s) \<or> (empty_ok r \<and> w \<in> lang (after c s))"
    by (simp add: lang_alt lang_cat)
  also have "\<dots> \<longleftrightarrow>
          (\<exists>u v. w = u @ v \<and> c # u \<in> lang r \<and> v \<in> lang s) \<or> ([] \<in> lang r \<and> c # w \<in> lang s)"
    using Cat by (simp add: conc_iff empty_ok_lang)
  also have "\<dots> \<longleftrightarrow> c # w \<in> conc (lang r) (lang s)"
    by (simp add: cons_conc)
  finally show ?case by simp
next
  case (Star r)
  have "w \<in> lang (after c (Star r)) \<longleftrightarrow> w \<in> conc (lang (after c r)) (star (lang r))"
    by (simp add: lang_cat)
  also have "\<dots> \<longleftrightarrow> (\<exists>u v. w = u @ v \<and> c # u \<in> lang r \<and> v \<in> star (lang r))"
    using Star by (simp add: conc_iff)
  also have "\<dots> \<longleftrightarrow> c # w \<in> star (lang r)"
    by (simp add: cons_star)
  finally show ?case by simp
qed (auto simp: lang_alt)

lemma matches_lang: "matches r s \<longleftrightarrow> s \<in> lang r"
  by (induction s arbitrary: r) (auto simp: empty_ok_lang lang_after)

lemma rep_exact_numeral: "rep_exact (numeral k) r = Cat r (rep_exact (pred_numeral k) r)"
  by (simp add: numeral_eq_Suc)

lemma rep_upto_numeral: "rep_upto (numeral k) r = opt (Cat r (rep_upto (pred_numeral k) r))"
  by (simp add: numeral_eq_Suc)

lemmas re_eval = lit_def opt_def plus1_def rep_range_def rep_min_def dot_def ilit_def iset_def
  ws_def digit_def eol_def anything_def ci_variants_def rep_exact_numeral rep_upto_numeral
  isspace_def

lemmas str_eval = strip_def lstrip_def rstrip_def isspace_def

lemmas latin1_eval = latin1_def latin1_lower_def latin1_upper_def casefold_def upper_def


subsection \<open>Boilerplate filter and annex titles\<close>

lemma matches_Fail: "\<not> matches Fail s"
  by (induction s) auto

lemma lang_cats_Cons: "lang (cats (r # rs)) = conc (lang r) (lang (cats rs))"
  by (cases rs) (auto simp: conc_def)

lemma cats_needs_here: "\<forall>v \<in> lang (cats (lit x # rs)). x \<in> set v"
  by (auto simp: lang_cats_Cons conc_iff lit_def)

lemma cats_needs_later:
  "\<forall>v \<in> lang (cats rs). x \<in> set v \<Longrightarrow> \<forall>v \<in> lang (cats (r # rs)). x \<in> set v"
  by (auto simp: lang_cats_Cons conc_iff)

lemma bill_needs_backquote:
  assumes "matches (re_bill U) t"
  shows "96 \<in> set t"
proof -
  from assms have "t \<in> lang (re_bill U)" by (simp add: matches_lang)
  moreover have "\<forall>v \<in> lang (re_bill U). 96 \<in> set v"
    unfolding re_bill_def
    by (rule cats_needs_later [OF cats_needs_later [OF cats_needs_later
          [OF cats_needs_later [OF cats_needs_here]]]])
  ultimately show ?thesis by blast
qed

lemma set_strip: "set (strip s) \<subseteq> set s"
  using strip_sublist [of s] by (metis Un_upper1 Un_upper2 set_append subset_trans)

text \<open>
  The bill-identifier pattern of the source can match a line only if the line contains
  a backquote, so on every line without one the filter is decided by the banned
  substrings and the protocol stamp alone.
\<close>

lemma should_remove_global_without_backquote:
  assumes "96 \<notin> set line"
  shows "should_remove_global U line \<longleftrightarrow>
           list_ex (\<lambda>b. str_in b (casefold U line)) BANNED_SUBSTRS
           \<or> matches (re_protocol U) (casefold U line)"
proof (cases "line = []")
  case True
  then show ?thesis
    by (simp add: should_remove_global_def casefold_def BANNED_SUBSTRS_def re_protocol_def re_eval)
next
  case False
  from assms set_strip [of line] have "96 \<notin> set (strip line)" by blast
  then have "\<not> matches (re_bill U) (strip line)" using bill_needs_backquote by blast
  with False show ?thesis by (simp add: should_remove_global_def Let_def)
qed

text \<open>
  Claim C3.  The filter is meant to answer true exactly for a banned substring or a
  protocol stamp, the bill-identifier branch being dead.  The pattern of that branch is
  garbled but not dead: the line \<open>pl`.ibl1/25\<close> has no banned substring and no protocol
  stamp, and the filter removes it.  The identifier \<open>PL 1234/2025\<close>, which the comment
  above the pattern gives as what the branch removes, is kept.
\<close>

theorem garbled_bill_pattern_fires:
  "should_remove_global latin1 [112, 108, 96, 46, 105, 98, 108, 49, 47, 50, 53]
   \<and> \<not> list_ex (\<lambda>b. str_in b (casefold latin1 [112, 108, 96, 46, 105, 98, 108, 49, 47, 50, 53]))
         BANNED_SUBSTRS
   \<and> \<not> matches (re_protocol latin1)
         (casefold latin1 [112, 108, 96, 46, 105, 98, 108, 49, 47, 50, 53])
   \<and> \<not> should_remove_global latin1 [80, 76, 32, 49, 50, 51, 52, 47, 50, 48, 50, 53]"
proof -
  let ?l = "[112, 108, 96, 46, 105, 98, 108, 49, 47, 50, 53] :: str"
  have cf: "casefold latin1 ?l = ?l" by (simp add: latin1_eval)
  have 1: "\<not> list_ex (\<lambda>b. str_in b ?l) BANNED_SUBSTRS" by (simp add: BANNED_SUBSTRS_def)
  have 2: "\<not> matches (re_protocol latin1) ?l" by (simp add: re_protocol_def re_eval latin1_eval)
  have 3: "matches (re_bill latin1) (strip ?l)" by (simp add: re_bill_def re_eval latin1_eval str_eval)
  have 4: "should_remove_global latin1 ?l"
    unfolding should_remove_global_def Let_def cf using 1 2 3 by simp
  have 5: "\<not> should_remove_global latin1 [80, 76, 32, 49, 50, 51, 52, 47, 50, 48, 50, 53]"
    by (simp add: should_remove_global_def str_eval re_protocol_def re_bill_def re_eval
          latin1_eval BANNED_SUBSTRS_def)
  from 1 2 4 5 show ?thesis unfolding cf by blast
qed

lemma rstrip_append:
  assumes "p \<noteq> []" and "\<not> isspace (last p)"
  shows "rstrip (p @ rest) = p @ rstrip rest"
proof (cases "dropWhile isspace (rev rest) = []")
  case True
  then have "\<forall>x \<in> set (rev rest). isspace x" by (simp add: dropWhile_eq_Nil_conv)
  then have "dropWhile isspace (rev rest @ rev p) = dropWhile isspace (rev p)"
    by (simp add: dropWhile_append1 dropWhile_append2 del: set_rev)
  also have "\<dots> = rev p" using assms by (intro dropWhile_hd) (auto simp: hd_rev)
  finally show ?thesis using True by (simp add: rstrip_def)
next
  case False
  then obtain x where "x \<in> set (rev rest)" "\<not> isspace x"
    by (metis dropWhile_eq_Nil_conv)
  then have "dropWhile isspace (rev rest @ rev p) = dropWhile isspace (rev rest) @ rev p"
    by (rule dropWhile_append1)
  then show ?thesis by (simp add: rstrip_def)
qed

lemma no_annex_unico: "\<not> matches re_annex ([65, 78, 69, 88, 79, 32, 218, 78, 73, 67, 79] @ x)"
  by (simp add: re_annex_def lit_def opt_def plus1_def dot_def ws_def eol_def numeral_char_def
        separator_char_def isspace_def matches_Fail)

text \<open>
  Claim C2.  The comment above the pattern names "ANEXO UNICO" (with an acute accent on
  the U, code point 218) as a title to recognise, but the numeral class of the pattern
  has no such letter: every line that starts with these eleven characters is rejected,
  whatever follows and whatever the Unicode tables.
\<close>

theorem anexo_unico_rejected:
  "looks_like_annex_title U ([65, 78, 69, 88, 79, 32, 218, 78, 73, 67, 79] @ rest) = False"
proof -
  let ?p = "[65, 78, 69, 88, 79, 32, 218, 78, 73, 67, 79] :: str"
  have "lstrip (?p @ rest) = ?p @ rest" by (simp add: lstrip_def isspace_def)
  moreover have "rstrip (?p @ rest) = ?p @ rstrip rest"
    by (rule rstrip_append) (simp_all add: isspace_def)
  ultimately have "strip (?p @ rest) = ?p @ rstrip rest" by (simp add: strip_def)
  then show ?thesis
    unfolding looks_like_annex_title_def Let_def using no_annex_unico [of "rstrip rest"] by simp
qed

subsection \<open>Page numbers\<close>

lemma conc_Cls: "s \<in> conc {[c] |c. P c} B \<longleftrightarrow> (\<exists>c v. s = c # v \<and> P c \<and> v \<in> B)"
proof
  assume "s \<in> conc {[c] |c. P c} B"
  then show "\<exists>c v. s = c # v \<and> P c \<and> v \<in> B" by (auto simp: conc_iff)
next
  assume "\<exists>c v. s = c # v \<and> P c \<and> v \<in> B"
  then obtain c v where "s = [c] @ v" "P c" "v \<in> B" by auto
  then show "s \<in> conc {[c] |c. P c} B" unfolding conc_iff by blast
qed

lemma star_Cls: "s \<in> star {[c] |c. P c} \<longleftrightarrow> list_all P s"
proof
  assume "s \<in> star {[c] |c. P c}"
  then show "list_all P s" by (induction rule: star.induct) auto
next
  assume "list_all P s"
  then show "s \<in> star {[c] |c. P c}"
  proof (induction s)
    case Nil
    show ?case by (rule star.star_empty)
  next
    case (Cons c s)
    then have "[c] \<in> {[c] |c. P c}" and "s \<in> star {[c] |c. P c}" by auto
    then have "[c] @ s \<in> star {[c] |c. P c}" by (rule star.star_step)
    then show ?case by simp
  qed
qed

lemma lang_plus1_Cls: "s \<in> lang (plus1 (Cls P)) \<longleftrightarrow> s \<noteq> [] \<and> list_all P s"
  by (cases s) (auto simp: plus1_def conc_Cls star_Cls)

lemma lang_rep_exact_Cls: "s \<in> lang (rep_exact n (Cls P)) \<longleftrightarrow> length s = n \<and> list_all P s"
proof (induction n arbitrary: s)
  case 0
  then show ?case by auto
next
  case (Suc n)
  then show ?case by (cases s) (auto simp: conc_Cls)
qed

lemma lang_rep_upto_Cls: "s \<in> lang (rep_upto n (Cls P)) \<longleftrightarrow> length s \<le> n \<and> list_all P s"
proof (induction n arbitrary: s)
  case 0
  then show ?case by auto
next
  case (Suc n)
  then show ?case by (cases s) (auto simp: opt_def conc_Cls)
qed

lemma lang_rep_range_Cls:
  assumes "n \<le> m"
  shows "s \<in> lang (rep_range n m (Cls P)) \<longleftrightarrow> n \<le> length s \<and> length s \<le> m \<and> list_all P s"
proof
  assume "s \<in> lang (rep_range n m (Cls P))"
  then obtain u v where "s = u @ v" "length u = n" "list_all P u" "length v \<le> m - n" "list_all P v"
    unfolding rep_range_def lang.simps(5) conc_iff lang_rep_exact_Cls lang_rep_upto_Cls by blast
  with assms show "n \<le> length s \<and> length s \<le> m \<and> list_all P s" by auto
next
  assume a: "n \<le> length s \<and> length s \<le> m \<and> list_all P s"
  let ?u = "take n s" and ?v = "drop n s"
  have "s = ?u @ ?v" by simp
  moreover have "length ?u = n" using a by simp
  moreover have "length ?v \<le> m - n" using a by (simp add: diff_le_mono)
  moreover have "list_all P ?u" "list_all P ?v"
    using a by (auto simp: list_all_iff dest: in_set_takeD in_set_dropD)
  ultimately show "s \<in> lang (rep_range n m (Cls P))"
    unfolding rep_range_def lang.simps(5) conc_iff lang_rep_exact_Cls lang_rep_upto_Cls by blast
qed

lemma lang_digits14: "s \<in> lang (rep_range 1 4 (digit U)) \<longleftrightarrow> digits14 U s"
  by (simp add: digit_def lang_rep_range_Cls digits14_def)

lemma lang_blanks: "s \<in> lang (Star ws) \<longleftrightarrow> blanks s"
  by (simp add: ws_def star_Cls blanks_def)

lemma lang_blanks1: "s \<in> lang (plus1 ws) \<longleftrightarrow> s \<noteq> [] \<and> blanks s"
  by (simp add: ws_def lang_plus1_Cls blanks_def)

lemma conc_Eps: "conc A {[]} = A"
  by (auto simp: conc_def)

lemma matches_re_digits: "matches (re_digits U) t \<longleftrightarrow> digits14 U t"
  unfolding matches_lang re_digits_def by (rule lang_digits14)

lemma matches_re_x_of_y: "matches (re_x_of_y U) t \<longleftrightarrow> shape_slash U t"
proof -
  have "t \<in> lang (re_x_of_y U) \<longleftrightarrow>
          (\<exists>a r1. t = a @ r1 \<and> digits14 U a \<and>
            (\<exists>sp1 r2. r1 = sp1 @ r2 \<and> blanks sp1 \<and>
              (\<exists>r3. r2 = 47 # r3 \<and>
                (\<exists>sp2 b. r3 = sp2 @ b \<and> blanks sp2 \<and> digits14 U b))))"
    unfolding re_x_of_y_def lang_cats_Cons cats.simps(1) lang.simps(2) conc_Eps
    unfolding conc_iff lang_digits14 lang_blanks
    by (simp add: lit_def)
  also have "\<dots> \<longleftrightarrow> shape_slash U t"
    unfolding shape_slash_def by (auto; blast)
  finally show ?thesis by (simp add: matches_lang)
qed

lemma conc_ilit:
  "s \<in> conc (lang (ilit c)) B \<longleftrightarrow> (\<exists>x v. s = x # v \<and> x \<in> set (ci_variants c) \<and> v \<in> B)"
  by (simp add: ilit_def conc_Cls)

lemma conc_iset:
  "s \<in> conc (lang (iset cs)) B \<longleftrightarrow>
     (\<exists>x v. s = x # v \<and> (\<exists>c \<in> set cs. x \<in> set (ci_variants c)) \<and> v \<in> B)"
  by (simp add: iset_def conc_Cls)

lemma same_word_Nil: "same_word [] v \<longleftrightarrow> v = []"
  by (simp add: same_word_def)

lemma same_word_Cons:
  "same_word (c # w) v \<longleftrightarrow> (\<exists>x v'. v = x # v' \<and> x \<in> set (ci_variants c) \<and> same_word w v')"
  by (simp add: same_word_def list_all2_Cons1)

lemma lang_ilit: "u \<in> lang (ilit c) \<longleftrightarrow> (\<exists>x. u = [x] \<and> x \<in> set (ci_variants c))"
  by (auto simp: ilit_def)

lemma lang_iset:
  "u \<in> lang (iset cs) \<longleftrightarrow> (\<exists>x. u = [x] \<and> (\<exists>c \<in> set cs. x \<in> set (ci_variants c)))"
  by (auto simp: iset_def)

lemma lang_of_total:
  "t \<in> lang (cats [plus1 ws, ilit 100, ilit 101, plus1 ws, rep_range 1 4 (digit U)])
     \<longleftrightarrow> of_total U t"
proof
  assume "t \<in> lang (cats [plus1 ws, ilit 100, ilit 101, plus1 ws, rep_range 1 4 (digit U)])"
  then obtain sp1 x y sp2 ds where
    "t = sp1 @ [x] @ [y] @ sp2 @ ds" "sp1 \<noteq> []" "blanks sp1" "x \<in> set (ci_variants 100)"
    "y \<in> set (ci_variants 101)" "sp2 \<noteq> []" "blanks sp2" "digits14 U ds"
    unfolding lang_cats_Cons cats.simps(1) lang.simps(2) conc_Eps conc_iff
      lang_digits14 lang_blanks1 lang_ilit
    by blast
  then have "t = sp1 @ [x, y] @ sp2 @ ds \<and> sp1 \<noteq> [] \<and> blanks sp1 \<and> same_word [100, 101] [x, y]
      \<and> sp2 \<noteq> [] \<and> blanks sp2 \<and> digits14 U ds"
    by (simp add: same_word_Cons same_word_Nil)
  then show "of_total U t" unfolding of_total_def by blast
next
  assume "of_total U t"
  then obtain sp1 de sp2 ds where *:
    "t = sp1 @ de @ sp2 @ ds" "sp1 \<noteq> []" "blanks sp1" "same_word [100, 101] de"
    "sp2 \<noteq> []" "blanks sp2" "digits14 U ds"
    unfolding of_total_def by blast
  from \<open>same_word [100, 101] de\<close> obtain x y where
    "de = [x] @ [y]" "x \<in> set (ci_variants 100)" "y \<in> set (ci_variants 101)"
    by (auto simp: same_word_Cons same_word_Nil)
  with * have "t = sp1 @ [x] @ [y] @ sp2 @ ds" by simp
  with * \<open>x \<in> set (ci_variants 100)\<close> \<open>y \<in> set (ci_variants 101)\<close>
  show "t \<in> lang (cats [plus1 ws, ilit 100, ilit 101, plus1 ws, rep_range 1 4 (digit U)])"
    unfolding lang_cats_Cons cats.simps(1) lang.simps(2) conc_Eps conc_iff
      lang_digits14 lang_blanks1 lang_ilit
    by blast
qed

lemma same_word6:
  "same_word [a1, a2, a3, a4, a5, a6] w \<longleftrightarrow>
     (\<exists>c1 c2 c3 c4 c5 c6. w = [c1, c2, c3, c4, c5, c6] \<and>
        c1 \<in> set (ci_variants a1) \<and> c2 \<in> set (ci_variants a2) \<and>
        c3 \<in> set (ci_variants a3) \<and> c4 \<in> set (ci_variants a4) \<and>
        c5 \<in> set (ci_variants a5) \<and> c6 \<in> set (ci_variants a6))"
  by (auto simp: same_word_def list_all2_Cons1)

lemma pagina_word:
  "list_ex (\<lambda>p. same_word p w) [PAGINA, PAGINA_UNACCENTED] \<longleftrightarrow>
     (\<exists>c1 c2 c3 c4 c5 c6. w = [c1, c2, c3, c4, c5, c6] \<and>
        c1 \<in> set (ci_variants 112) \<and> (\<exists>c \<in> set [225, 97]. c2 \<in> set (ci_variants c)) \<and>
        c3 \<in> set (ci_variants 103) \<and> c4 \<in> set (ci_variants 105) \<and>
        c5 \<in> set (ci_variants 110) \<and> c6 \<in> set (ci_variants 97))"
proof -
  have "list_ex (\<lambda>p. same_word p w) [PAGINA, PAGINA_UNACCENTED] \<longleftrightarrow>
          same_word [112, 225, 103, 105, 110, 97] w \<or> same_word [112, 97, 103, 105, 110, 97] w"
    by (simp add: PAGINA_def PAGINA_UNACCENTED_def)
  also have "\<dots> \<longleftrightarrow>
     (\<exists>c1 c2 c3 c4 c5 c6. w = [c1, c2, c3, c4, c5, c6] \<and>
        c1 \<in> set (ci_variants 112) \<and> (\<exists>c \<in> set [225, 97]. c2 \<in> set (ci_variants c)) \<and>
        c3 \<in> set (ci_variants 103) \<and> c4 \<in> set (ci_variants 105) \<and>
        c5 \<in> set (ci_variants 110) \<and> c6 \<in> set (ci_variants 97))"
    unfolding same_word6 by auto
  finally show ?thesis .
qed


lemma lang_opt: "t \<in> lang (opt r) \<longleftrightarrow> t = [] \<or> t \<in> lang r"
  by (auto simp: opt_def)

lemma conc3:
  "v \<in> conc A (conc B C) \<longleftrightarrow> (\<exists>a b c. v = a @ b @ c \<and> a \<in> A \<and> b \<in> B \<and> c \<in> C)"
proof
  assume "v \<in> conc A (conc B C)"
  then obtain a r where 1: "v = a @ r" "a \<in> A" "r \<in> conc B C" unfolding conc_iff by blast
  then obtain b c where 2: "r = b @ c" "b \<in> B" "c \<in> C" unfolding conc_iff by blast
  from 1 2 have "v = a @ b @ c \<and> a \<in> A \<and> b \<in> B \<and> c \<in> C" by simp
  then show "\<exists>a b c. v = a @ b @ c \<and> a \<in> A \<and> b \<in> B \<and> c \<in> C" by blast
next
  assume "\<exists>a b c. v = a @ b @ c \<and> a \<in> A \<and> b \<in> B \<and> c \<in> C"
  then obtain a b c where 1: "v = a @ b @ c" "a \<in> A" "b \<in> B" "c \<in> C" by blast
  then have "b @ c \<in> conc B C" unfolding conc_iff by blast
  with 1 show "v \<in> conc A (conc B C)" unfolding conc_iff by blast
qed

lemma lang_pagina_tail:
  "v \<in> lang (cats [plus1 ws, rep_range 1 4 (digit U),
       opt (cats [plus1 ws, ilit 100, ilit 101, plus1 ws, rep_range 1 4 (digit U)])]) \<longleftrightarrow>
     (\<exists>sp ds rest. v = sp @ ds @ rest \<and> sp \<noteq> [] \<and> blanks sp \<and> digits14 U ds \<and>
        (rest = [] \<or> of_total U rest))"
proof -
  let ?X = "cats [plus1 ws, ilit 100, ilit 101, plus1 ws, rep_range 1 4 (digit U)]"
  have "lang (cats [plus1 ws, rep_range 1 4 (digit U), opt ?X]) =
          conc (lang (plus1 ws)) (conc (lang (rep_range 1 4 (digit U))) (lang (opt ?X)))"
    unfolding cats.simps lang.simps(5) by (rule refl)
  then have "v \<in> lang (cats [plus1 ws, rep_range 1 4 (digit U), opt ?X]) \<longleftrightarrow>
      (\<exists>a b c. v = a @ b @ c \<and> a \<in> lang (plus1 ws) \<and> b \<in> lang (rep_range 1 4 (digit U)) \<and>
         c \<in> lang (opt ?X))"
    by (simp only: conc3)
  then show ?thesis
    unfolding lang_blanks1 lang_digits14 lang_opt lang_of_total by (simp only: conj_assoc)
qed

lemma lang_cats_ilit:
  "t \<in> lang (cats (ilit c # r # rs)) \<longleftrightarrow>
     (\<exists>x v. t = x # v \<and> x \<in> set (ci_variants c) \<and> v \<in> lang (cats (r # rs)))"
  unfolding lang_cats_Cons [of "ilit c"] by (rule conc_ilit)

lemma lang_cats_iset:
  "t \<in> lang (cats (iset cs # r # rs)) \<longleftrightarrow>
     (\<exists>x v. t = x # v \<and> (\<exists>c \<in> set cs. x \<in> set (ci_variants c)) \<and> v \<in> lang (cats (r # rs)))"
  unfolding lang_cats_Cons [of "iset cs"] by (rule conc_iset)

lemma lang_re_pagina:
  "t \<in> lang (re_pagina U) \<longleftrightarrow>
     (\<exists>c1 c2 c3 c4 c5 c6 v. t = c1 # c2 # c3 # c4 # c5 # c6 # v \<and>
        c1 \<in> set (ci_variants 112) \<and> (\<exists>c \<in> set [225, 97]. c2 \<in> set (ci_variants c)) \<and>
        c3 \<in> set (ci_variants 103) \<and> c4 \<in> set (ci_variants 105) \<and>
        c5 \<in> set (ci_variants 110) \<and> c6 \<in> set (ci_variants 97) \<and>
        v \<in> lang (cats [plus1 ws, rep_range 1 4 (digit U),
          opt (cats [plus1 ws, ilit 100, ilit 101, plus1 ws, rep_range 1 4 (digit U)])]))"
  unfolding re_pagina_def lang_cats_ilit lang_cats_iset by (auto simp del: lang.simps cats.simps set_simps)


lemma matches_re_pagina:
  "matches (re_pagina U) t \<longleftrightarrow> shape_pagina U [PAGINA, PAGINA_UNACCENTED] t"
proof
  assume "matches (re_pagina U) t"
  then have "t \<in> lang (re_pagina U)" by (simp add: matches_lang)
  then obtain c1 c2 c3 c4 c5 c6 v where
    t: "t = c1 # c2 # c3 # c4 # c5 # c6 # v" and
    c: "c1 \<in> set (ci_variants 112)" "\<exists>c \<in> set [225, 97]. c2 \<in> set (ci_variants c)"
       "c3 \<in> set (ci_variants 103)" "c4 \<in> set (ci_variants 105)"
       "c5 \<in> set (ci_variants 110)" "c6 \<in> set (ci_variants 97)" and
    v: "v \<in> lang (cats [plus1 ws, rep_range 1 4 (digit U),
          opt (cats [plus1 ws, ilit 100, ilit 101, plus1 ws, rep_range 1 4 (digit U)])])"
    unfolding lang_re_pagina by blast
  from v obtain sp ds rest where
    r: "v = sp @ ds @ rest" "sp \<noteq> []" "blanks sp" "digits14 U ds" "rest = [] \<or> of_total U rest"
    unfolding lang_pagina_tail by blast
  have w: "list_ex (\<lambda>p. same_word p [c1, c2, c3, c4, c5, c6]) [PAGINA, PAGINA_UNACCENTED]"
    unfolding pagina_word using c by blast
  from t r have "t = [c1, c2, c3, c4, c5, c6] @ sp @ ds @ rest" by simp
  with w r show "shape_pagina U [PAGINA, PAGINA_UNACCENTED] t"
    unfolding shape_pagina_def by blast
next
  assume "shape_pagina U [PAGINA, PAGINA_UNACCENTED] t"
  then obtain w sp ds rest where
    t: "t = w @ sp @ ds @ rest" and
    w: "list_ex (\<lambda>p. same_word p w) [PAGINA, PAGINA_UNACCENTED]" and
    r: "sp \<noteq> []" "blanks sp" "digits14 U ds" "rest = [] \<or> of_total U rest"
    unfolding shape_pagina_def by blast
  from r have v: "sp @ ds @ rest \<in> lang (cats [plus1 ws, rep_range 1 4 (digit U),
       opt (cats [plus1 ws, ilit 100, ilit 101, plus1 ws, rep_range 1 4 (digit U)])])"
    unfolding lang_pagina_tail by blast
  from w obtain c1 c2 c3 c4 c5 c6 where
    w': "w = [c1, c2, c3, c4, c5, c6]" and
    c: "c1 \<in> set (ci_variants 112)" "\<exists>c \<in> set [225, 97]. c2 \<in> set (ci_variants c)"
       "c3 \<in> set (ci_variants 103)" "c4 \<in> set (ci_variants 105)"
       "c5 \<in> set (ci_variants 110)" "c6 \<in> set (ci_variants 97)"
    unfolding pagina_word by blast
  from t w' have "t = c1 # c2 # c3 # c4 # c5 # c6 # (sp @ ds @ rest)" by simp
  with c v have "t \<in> lang (re_pagina U)"
    unfolding lang_re_pagina by blast
  then show "matches (re_pagina U) t" by (simp add: matches_lang)
qed

lemma is_page_number_shape:
  "is_page_number U line \<longleftrightarrow> page_number_shape U [PAGINA, PAGINA_UNACCENTED] (strip line)"
  by (simp add: is_page_number_def Let_def page_number_shape_def matches_re_digits
        matches_re_pagina matches_re_x_of_y)

text \<open>
  Claim C8, as amended.  The classifier answers for every line (it has no failing
  branch) and answers true exactly when the stripped line has one of the three shapes,
  where the word before the number may be spelled with or without the acute accent
  (\<open>PAGINA\<close> or \<open>PAGINA_UNACCENTED\<close>, in any letter case).  The five sample lines
  "3", "Pagina 3 de 10", "3/25", "ANEXO I" and "Pagina" (the two with the accent, code
  point 225) get true, true, true, false and false.
\<close>

theorem is_page_number_shapes:
  "(is_page_number U line \<longleftrightarrow>
      page_number_shape U [PAGINA, PAGINA_UNACCENTED] (strip line))
   \<and> is_page_number latin1 [51]
   \<and> is_page_number latin1 [80, 225, 103, 105, 110, 97, 32, 51, 32, 100, 101, 32, 49, 48]
   \<and> is_page_number latin1 [51, 47, 50, 53]
   \<and> \<not> is_page_number latin1 [65, 78, 69, 88, 79, 32, 73]
   \<and> \<not> is_page_number latin1 [80, 225, 103, 105, 110, 97]"
proof -
  note ev = is_page_number_def str_eval re_digits_def re_pagina_def re_x_of_y_def re_eval
    latin1_eval
  have "is_page_number latin1 [51]" by (simp add: ev)
  moreover have
    "is_page_number latin1 [80, 225, 103, 105, 110, 97, 32, 51, 32, 100, 101, 32, 49, 48]"
    by (simp add: ev)
  moreover have "is_page_number latin1 [51, 47, 50, 53]" by (simp add: ev)
  moreover have "\<not> is_page_number latin1 [65, 78, 69, 88, 79, 32, 73]" by (simp add: ev)
  moreover have "\<not> is_page_number latin1 [80, 225, 103, 105, 110, 97]" by (simp add: ev)
  ultimately show ?thesis using is_page_number_shape [of U line] by blast
qed

text \<open>The unaccented spelling "Pagina 3 de 10" has the second shape.\<close>

theorem is_page_number_shapes_witness:
  "page_number_shape latin1 [PAGINA, PAGINA_UNACCENTED]
     (strip [80, 97, 103, 105, 110, 97, 32, 51, 32, 100, 101, 32, 49, 48])"
proof -
  have "is_page_number latin1 [80, 97, 103, 105, 110, 97, 32, 51, 32, 100, 101, 32, 49, 48]"
    by (simp add: is_page_number_def str_eval re_digits_def re_pagina_def re_x_of_y_def re_eval
          latin1_eval)
  with is_page_number_shapes
    [of latin1 "[80, 97, 103, 105, 110, 97, 32, 51, 32, 100, 101, 32, 49, 48]"]
  show ?thesis by blast
qed

text \<open>
  With the accented spelling only, as the claim has it, the line "Pagina 3" has none of
  the three shapes, and the classifier still answers true.
\<close>

theorem unaccented_pagina_counterexample:
  "is_page_number latin1 [80, 97, 103, 105, 110, 97, 32, 51]
   \<and> \<not> page_number_shape latin1 [PAGINA] (strip [80, 97, 103, 105, 110, 97, 32, 51])"
proof -
  let ?t = "[80, 97, 103, 105, 110, 97, 32, 51] :: str"
  have s: "strip ?t = ?t" by (simp add: str_eval)
  have 1: "is_page_number latin1 ?t"
    by (simp add: is_page_number_def str_eval re_digits_def re_pagina_def re_x_of_y_def re_eval
          latin1_eval)
  have 2: "\<not> digits14 latin1 ?t" by (simp add: digits14_def)
  have 3: "\<not> shape_slash latin1 ?t"
  proof
    assume "shape_slash latin1 ?t"
    then obtain a sp1 sp2 b where "?t = a @ sp1 @ [47] @ sp2 @ b"
      unfolding shape_slash_def by blast
    then have "47 \<in> set ?t" by (metis in_set_conv_decomp append.assoc append_Cons)
    then show False by simp
  qed
  have 4: "\<not> shape_pagina latin1 [PAGINA] ?t"
  proof
    assume "shape_pagina latin1 [PAGINA] ?t"
    then obtain w r where t: "?t = w @ r" and w: "same_word PAGINA w"
      unfolding shape_pagina_def by auto
    from w obtain c1 c2 c3 c4 c5 c6 where
      "w = [c1, c2, c3, c4, c5, c6]" "c2 \<in> set (ci_variants 225)"
      unfolding PAGINA_def same_word6 by blast
    with t have "97 \<in> set (ci_variants 225)" by simp
    then show False by (simp add: ci_variants_def)
  qed
  from 1 2 3 4 show ?thesis unfolding s page_number_shape_def by blast
qed

subsection \<open>Signature stamps\<close>

lemma banned_flagged:
  assumes "b \<in> set BANNED_SUBSTRS" and "b \<noteq> []" and "str_in b (casefold U line)"
  shows "should_remove_global U line"
proof -
  have "line \<noteq> []" using assms(2,3) by (auto simp: casefold_def)
  moreover have "list_ex (\<lambda>b. str_in b (casefold U line)) BANNED_SUBSTRS"
    using assms(1,3) by (auto simp: list_ex_iff)
  ultimately show ?thesis by (simp add: should_remove_global_def)
qed

lemma flagged_not_kept:
  assumes "should_remove_global U line"
  shows "line \<notin> set (keep_lines U top_rep bot_rep h lines)"
  using assms by (auto simp: keep_lines_def excluded_def)

text \<open>
  Claim C9.  A line whose case-folded form contains "assinado eletronicamente" is flagged
  by the boilerplate filter, is excluded at every position on the page (any bounding
  box, any header and footer sets, any cutoffs), and is therefore never among the lines
  the pipeline keeps from a page.
\<close>

theorem assinado_eletronicamente_removed:
  assumes "str_in [97, 115, 115, 105, 110, 97, 100, 111, 32, 101, 108, 101, 116, 114, 111, 110,
             105, 99, 97, 109, 101, 110, 116, 101] (casefold U line)"
  shows "should_remove_global U line
         \<and> excluded U top_rep bot_rep top_y bottom_y (bbox, line)
         \<and> line \<notin> set (keep_lines U top_rep bot_rep h lines)"
proof -
  have "should_remove_global U line"
    using assms by (rule banned_flagged [rotated 2]) (simp_all add: BANNED_SUBSTRS_def)
  then show ?thesis using flagged_not_kept by (simp add: excluded_def)
qed

text \<open>The line "Documento ASSINADO Eletronicamente" on a page of height 800, in mid-page.\<close>

theorem assinado_eletronicamente_removed_witness:
  "str_in [97, 115, 115, 105, 110, 97, 100, 111, 32, 101, 108, 101, 116, 114, 111, 110,
     105, 99, 97, 109, 101, 110, 116, 101]
     (casefold latin1 [68, 111, 99, 117, 109, 101, 110, 116, 111, 32, 65, 83, 83, 73, 78, 65, 68,
        79, 32, 69, 108, 101, 116, 114, 111, 110, 105, 99, 97, 109, 101, 110, 116, 101])
   \<and> should_remove_global latin1 [68, 111, 99, 117, 109, 101, 110, 116, 111, 32, 65, 83, 83,
        73, 78, 65, 68, 79, 32, 69, 108, 101, 116, 114, 111, 110, 105, 99, 97, 109, 101, 110, 116,
        101]
   \<and> keep_lines latin1 {} {} 800
        [((72, 400, 500, 412), [68, 111, 99, 117, 109, 101, 110, 116, 111, 32, 65, 83, 83,
           73, 78, 65, 68, 79, 32, 69, 108, 101, 116, 114, 111, 110, 105, 99, 97, 109, 101, 110,
           116, 101])] = []"
proof -
  let ?l = "[68, 111, 99, 117, 109, 101, 110, 116, 111, 32, 65, 83, 83, 73, 78, 65, 68,
        79, 32, 69, 108, 101, 116, 114, 111, 110, 105, 99, 97, 109, 101, 110, 116, 101] :: str"
  have a: "str_in [97, 115, 115, 105, 110, 97, 100, 111, 32, 101, 108, 101, 116, 114, 111, 110,
     105, 99, 97, 109, 101, 110, 116, 101] (casefold latin1 ?l)"
    by (simp add: latin1_eval)
  note t = assinado_eletronicamente_removed [OF a, of "{}" "{}" "800 * TOP_FRAC"
      "800 * (1 - BOTTOM_FRAC)" "(72, 400, 500, 412)" 800 "[]"]
  from t have "excluded latin1 {} {} (800 * TOP_FRAC) (800 * (1 - BOTTOM_FRAC))
      ((72, 400, 500, 412), ?l)" by blast
  then have "keep_lines latin1 {} {} 800 [((72, 400, 500, 412), ?l)] = []"
    by (simp add: keep_lines_def)
  with a t show ?thesis by blast
qed

subsection \<open>Counters\<close>










subsection \<open>Header and footer detection\<close>













subsection \<open>Annex boundary\<close>



lemma title_pages_bound: "j \<in> set (title_pages U pages_lines heights) \<Longrightarrow> j < length pages_lines"
  by (simp add: title_pages_def)

subsection \<open>The filtering loop\<close>





subsection \<open>Evaluating the sample documents\<close>








lemma ANEXO_I_not_removed: "\<not> should_remove_global latin1 ANEXO_I"
  by (simp add: ANEXO_I_def should_remove_global_def str_eval re_protocol_def re_bill_def re_eval
        latin1_eval BANNED_SUBSTRS_def)


subsection \<open>Short documents\<close>





subsection \<open>Annex boundary and truncation\<close>








subsection \<open>The whole pipeline\<close>



































end
